theory Spec2Isabelle
  imports Complex_Main "HOL-Library.Word"
begin

section \<open>Overtone Analyzer: the analysis core of overtone_analyzer.py\<close>

text \<open>
  The arrays of the program are numpy arrays of float64. They are modelled as lists of
  real numbers: comparisons, sums and products are the exact ones, and the rounding of a
  result to the nearest float is not modelled. The integrals of the BandAnalyzer are
  exact as well: a spectrum on which the integration itself overflows is outside the
  model. The results that are no numbers are modelled in three places: the overflow of
  the percentage \<^verbatim>\<open>100.0 * e / total\<close>, the command-line band edges, which can be infinite
  or not a number, and the division by zero of the fallback estimator.
\<close>

subsection \<open>Errors raised by the interpreter and by numpy\<close>

datatype error =
  IndexError | ValueError | ZeroDivisionError | OverflowError | RuntimeError | ImportError

subsection \<open>Floats\<close>

text \<open>A float64 value: a finite number, not a number, or an infinity.\<close>

datatype np_float = Finite real | NaN | PosInf | NegInf

text \<open>
  The float64 result of an operation on finite floats whose exact result is \<open>x\<close>: an
  infinity when \<open>x\<close> is beyond the range of the finite floats, which ends at
  \<open>2\<^sup>1\<^sup>0\<^sup>2\<^sup>4 - 2\<^sup>9\<^sup>7\<^sup>0\<close> (there the rounding to nearest goes to infinity).
\<close>

definition float_overflow :: real where
  "float_overflow = 2 ^ 1024 - 2 ^ 970"

definition py_float :: "real \<Rightarrow> np_float" where
  "py_float x =
     (if float_overflow \<le> x then PosInf else if x \<le> - float_overflow then NegInf else Finite x)"

text \<open>The product of two finite Python floats: it overflows to an infinity, nothing is raised.\<close>

definition py_mul :: "real \<Rightarrow> real \<Rightarrow> np_float" where
  "py_mul a b = py_float (a * b)"

text \<open>
  The quotient \<^verbatim>\<open>a / d\<close> of Python floats with a finite divisor: ZeroDivisionError when the
  divisor is zero.
\<close>

definition py_truediv :: "np_float \<Rightarrow> real \<Rightarrow> error + np_float" where
  "py_truediv a d =
     (if d = 0 then Inl ZeroDivisionError
      else Inr (case a of
                  Finite x \<Rightarrow> py_float (x / d)
                | NaN \<Rightarrow> NaN
                | PosInf \<Rightarrow> (if 0 < d then PosInf else NegInf)
                | NegInf \<Rightarrow> (if 0 < d then NegInf else PosInf)))"

text \<open>The comparison \<^verbatim>\<open>x >= c\<close> of a float with a finite constant: false when \<^verbatim>\<open>x\<close> is nan.\<close>

definition py_ge :: "np_float \<Rightarrow> real \<Rightarrow> bool" where
  "py_ge x c = (case x of Finite r \<Rightarrow> c \<le> r | PosInf \<Rightarrow> True | NaN \<Rightarrow> False | NegInf \<Rightarrow> False)"

text \<open>The quotient \<^verbatim>\<open>x / 1000\<close> of a float by a constant above 1: it cannot overflow.\<close>

definition float_scale :: "np_float \<Rightarrow> real \<Rightarrow> np_float" where
  "float_scale x c = (case x of Finite r \<Rightarrow> Finite (r / c) | NaN \<Rightarrow> NaN | PosInf \<Rightarrow> PosInf | NegInf \<Rightarrow> NegInf)"

text \<open>
  Python's \<^verbatim>\<open>int(x)\<close> on a float truncates towards zero; it raises ValueError on nan and
  OverflowError on an infinity.
\<close>

definition py_int :: "np_float \<Rightarrow> error + int" where
  "py_int x =
     (case x of
        Finite r \<Rightarrow> Inr (if 0 \<le> r then \<lfloor>r\<rfloor> else \<lceil>r\<rceil>)
      | NaN \<Rightarrow> Inl ValueError
      | PosInf \<Rightarrow> Inl OverflowError
      | NegInf \<Rightarrow> Inl OverflowError)"

text \<open>The number that a finite float is.\<close>

definition float_value :: "np_float \<Rightarrow> real" where
  "float_value x = (case x of Finite r \<Rightarrow> r | NaN \<Rightarrow> 0 | PosInf \<Rightarrow> 0 | NegInf \<Rightarrow> 0)"

subsection \<open>The numpy operations the analyzer uses\<close>

text \<open>\<^verbatim>\<open>np.where(cond)[0]\<close>: the indices at which the condition holds, ascending.\<close>

definition np_where :: "(real \<Rightarrow> bool) \<Rightarrow> real list \<Rightarrow> nat list" where
  "np_where c f = filter (\<lambda>i. c (f ! i)) [0..<length f]"

text \<open>\<^verbatim>\<open>a[idx]\<close> with an integer index array: IndexError when an index is out of bounds.\<close>

definition np_take :: "real list \<Rightarrow> nat list \<Rightarrow> error + real list" where
  "np_take a idx =
     (if list_all (\<lambda>i. i < length a) idx then Inr (map (\<lambda>i. a ! i) idx) else Inl IndexError)"

text \<open>\<^verbatim>\<open>a[mask]\<close> with a boolean mask: IndexError when the mask has another length.\<close>

definition np_mask :: "real list \<Rightarrow> bool list \<Rightarrow> error + real list" where
  "np_mask a m =
     (if length m = length a then Inr (map fst (filter snd (zip a m))) else Inl IndexError)"

text \<open>
  \<^verbatim>\<open>np.trapezoid(y, x)\<close> is \<^verbatim>\<open>sum(diff(x) * (y[1:] + y[:-1]) / 2.0)\<close>; the analyzer calls
  it only with two arrays of one length. On fewer than two points the sum is empty.
\<close>

fun trapezoid :: "real list \<Rightarrow> real list \<Rightarrow> real" where
  "trapezoid (y0 # y1 # ys) (x0 # x1 # xs) =
     (x1 - x0) * (y1 + y0) / 2 + trapezoid (y1 # ys) (x1 # xs)"
| "trapezoid ys xs = 0"

text \<open>\<^verbatim>\<open>a.max()\<close> raises ValueError on an empty array.\<close>

fun np_max :: "real list \<Rightarrow> error + real" where
  "np_max [] = Inl ValueError"
| "np_max (x # xs) = Inr (fold max xs x)"

text \<open>\<^verbatim>\<open>np.argmax(a)\<close>: the first index of the maximum; ValueError on an empty array.\<close>

fun np_argmax :: "real list \<Rightarrow> error + nat" where
  "np_argmax [] = Inl ValueError"
| "np_argmax (x # xs) =
     Inr (length (takeWhile (\<lambda>v. v \<noteq> fold max xs x) (x # xs)))"

subsection \<open>BandAnalyzer\<close>

text \<open>
  \<^verbatim>\<open>
  def band_energy(f, Pxx, f_lo, f_hi):
      idx = np.where((f >= f_lo) & (f < f_hi))[0]
      if idx.size == 0:
          return 0.0
      return float(np.trapezoid(Pxx[idx], f[idx]))
  \<close>
\<close>

definition band_energy :: "real list \<Rightarrow> real list \<Rightarrow> real \<Rightarrow> real \<Rightarrow> error + real" where
  "band_energy f Pxx f_lo f_hi =
     (let idx = np_where (\<lambda>x. f_lo \<le> x \<and> x < f_hi) f in
      if length idx = 0 then Inr 0
      else case np_take Pxx idx of
             Inl e \<Rightarrow> Inl e
           | Inr p \<Rightarrow> (case np_take f idx of
                        Inl e \<Rightarrow> Inl e
                      | Inr x \<Rightarrow> Inr (trapezoid p x)))"

text \<open>
  The band label is an f-string; its two shapes are kept as constructors, with the
  integers that the f-string prints.
\<close>

datatype band_label =
    Bass_60_250
  | Formant_400_1500
  | Overtones_kHz_kHz int int
  | Overtones_Hz_kHz int int

type_synonym band_def = "band_label \<times> real \<times> real"

record band_summary =
  band :: band_label
  lo_hz :: real
  hi_hz :: real
  energy :: real
  pct :: np_float

text \<open>
  The loop \<^verbatim>\<open>for name, lo, hi in bands\<close> of summarize_bands; an exception ends it. The
  energy \<^verbatim>\<open>e\<close> and the denominator \<^verbatim>\<open>total\<close> are Python floats, and \<^verbatim>\<open>100.0 * e / total\<close> is
  the product, then the quotient.
\<close>

fun band_rows :: "real list \<Rightarrow> real list \<Rightarrow> real \<Rightarrow> band_def list \<Rightarrow> error + band_summary list" where
  "band_rows f Pxx tot [] = Inr []"
| "band_rows f Pxx tot ((name, lo, hi) # bands) =
     (case band_energy f Pxx lo hi of
        Inl err \<Rightarrow> Inl err
      | Inr e \<Rightarrow>
          (case py_truediv (py_mul 100 e) tot of
             Inl err \<Rightarrow> Inl err
           | Inr p \<Rightarrow>
               (case band_rows f Pxx tot bands of
                  Inl err \<Rightarrow> Inl err
                | Inr out \<Rightarrow>
                    Inr (\<lparr>band = name, lo_hz = lo, hi_hz = hi, energy = e, pct = p\<rparr> # out))))"

text \<open>
  The list \<^verbatim>\<open>bands\<close>. The band edges \<^verbatim>\<open>air_lo\<close> and \<^verbatim>\<open>air_hi\<close> are the floats that argparse
  read: the label of the third band takes \<^verbatim>\<open>int\<close> of the low edge first, then of the high
  edge, so that an edge that is no number raises here, and both edges are finite in the
  list.
\<close>

definition default_bands :: "np_float \<Rightarrow> np_float \<Rightarrow> error + band_def list" where
  "default_bands air_lo air_hi =
     (case (if py_ge air_lo 1000 then py_int (float_scale air_lo 1000) else py_int air_lo) of
        Inl err \<Rightarrow> Inl err
      | Inr a \<Rightarrow>
          (case py_int (float_scale air_hi 1000) of
             Inl err \<Rightarrow> Inl err
           | Inr b \<Rightarrow>
               Inr [(Bass_60_250, 60, 250),
                    (Formant_400_1500, 400, 1500),
                    (if py_ge air_lo 1000 then Overtones_kHz_kHz a b else Overtones_Hz_kHz a b,
                     float_value air_lo, float_value air_hi)]))"

text \<open>
  \<^verbatim>\<open>
  def summarize_bands(f, Pxx, air_lo, air_hi):
      mask = f >= 20
      total = float(np.trapezoid(Pxx[mask], f[mask]))
      if total <= 0:
          total = 1e-12
      bands = [...]
      out = []
      for name, lo, hi in bands: ...
      return out, total, bands
  \<close>
\<close>

definition summarize_bands ::
  "real list \<Rightarrow> real list \<Rightarrow> np_float \<Rightarrow> np_float \<Rightarrow>
     error + (band_summary list \<times> real \<times> band_def list)" where
  "summarize_bands f Pxx air_lo air_hi =
     (let mask = map (\<lambda>x. x \<ge> 20) f in
      case np_mask Pxx mask of
        Inl err \<Rightarrow> Inl err
      | Inr p \<Rightarrow>
          (case np_mask f mask of
             Inl err \<Rightarrow> Inl err
           | Inr x \<Rightarrow>
               (let tot0 = trapezoid p x;
                    tot = (if tot0 \<le> 0 then 1 / 10 ^ 12 else tot0)
                in case default_bands air_lo air_hi of
                     Inl err \<Rightarrow> Inl err
                   | Inr bands \<Rightarrow>
                       (case band_rows f Pxx tot bands of
                          Inl err \<Rightarrow> Inl err
                        | Inr out \<Rightarrow> Inr (out, tot, bands)))))"

text \<open>
  \<^verbatim>\<open>
  def estimate_fundamental(f, Pxx, lo=60, hi=300):
      idx = np.where((f >= lo) & (f <= hi))[0]
      if idx.size == 0:
          return None
      sub_f = f[idx]; sub_p = Pxx[idx]
      if sub_p.max() <= 0:
          return None
      return float(sub_f[np.argmax(sub_p)])
  \<close>
\<close>

definition estimate_fundamental ::
  "real list \<Rightarrow> real list \<Rightarrow> real \<Rightarrow> real \<Rightarrow> error + real option" where
  "estimate_fundamental f Pxx lo hi =
     (let idx = np_where (\<lambda>x. lo \<le> x \<and> x \<le> hi) f in
      if length idx = 0 then Inr None
      else case np_take f idx of
             Inl e \<Rightarrow> Inl e
           | Inr sub_f \<Rightarrow>
               (case np_take Pxx idx of
                  Inl e \<Rightarrow> Inl e
                | Inr sub_p \<Rightarrow>
                    (case np_max sub_p of
                       Inl e \<Rightarrow> Inl e
                     | Inr m \<Rightarrow>
                         if m \<le> 0 then Inr None
                         else (case np_argmax sub_p of
                                 Inl e \<Rightarrow> Inl e
                               | Inr k \<Rightarrow>
                                   if k < length sub_f then Inr (Some (sub_f ! k))
                                   else Inl IndexError))))"

subsection \<open>AudioLoader: the two readers of 16-bit PCM\<close>

text \<open>
  \<^verbatim>\<open>a.reshape(-1, n)\<close> on a one-dimensional array: rows of n consecutive elements, and
  ValueError when the length is not a multiple of n.
\<close>

definition reshape_rows :: "nat \<Rightarrow> 'a list \<Rightarrow> error + 'a list list" where
  "reshape_rows n xs =
     (if n = 0 \<or> length xs mod n \<noteq> 0 then Inl ValueError
      else Inr (map (\<lambda>i. take n (drop (i * n) xs)) [0..<length xs div n]))"

text \<open>\<^verbatim>\<open>a.mean(axis=1)\<close>: the arithmetic mean of each row.\<close>

definition mean_axis1 :: "real list list \<Rightarrow> real list" where
  "mean_axis1 rows = map (\<lambda>r. sum_list r / real (length r)) rows"

text \<open>
  The second strategy of read_audio on a file of 16-bit integer PCM. The reader
  \<^verbatim>\<open>wavfile.read\<close> hands over the int16 samples of the data chunk, one row per frame when
  there are several channels; \<open>samples\<close> is that chunk in file order (interleaved).
  \<^verbatim>\<open>
      if np.issubdtype(y.dtype, np.integer):
          max_int = np.iinfo(y.dtype).max
          y = y.astype(np.float64) / max_int
      ...
      if y.ndim > 1:
          y = y.mean(axis=1)
  \<close>
  \<^verbatim>\<open>np.iinfo(np.int16).max\<close> is 32767.
\<close>

definition read_audio_scipy :: "16 word list \<Rightarrow> nat \<Rightarrow> error + real list" where
  "read_audio_scipy samples n_channels =
     (let max_int = (32767 :: real);
          y = map (\<lambda>w. real_of_int (sint w) / max_int) samples
      in if n_channels > 1
         then (case reshape_rows n_channels y of
                 Inl e \<Rightarrow> Inl e
               | Inr rows \<Rightarrow> Inr (mean_axis1 rows))
         else Inr y)"

text \<open>
  The third strategy of read_audio for sample width 2, on the same chunk; any exception
  is re-raised as RuntimeError.
  \<^verbatim>\<open>
      elif sampwidth == 2:
          data = np.frombuffer(raw, np.int16).astype(np.float64) / 32768.0
      ...
      if n_channels > 1:
          data = data.reshape(-1, n_channels).mean(axis=1)
  \<close>
\<close>

definition read_audio_wave :: "16 word list \<Rightarrow> nat \<Rightarrow> error + real list" where
  "read_audio_wave samples n_channels =
     (let data = map (\<lambda>w. real_of_int (sint w) / 32768) samples
      in if n_channels > 1
         then (case reshape_rows n_channels data of
                 Inl e \<Rightarrow> Inl RuntimeError
               | Inr rows \<Rightarrow> Inr (mean_axis1 rows))
         else Inr data)"

text \<open>The root of the mean squared difference of two arrays of one length.\<close>

definition rms_difference :: "real list \<Rightarrow> real list \<Rightarrow> real" where
  "rms_difference a b =
     sqrt (sum_list (map (\<lambda>(x, y). (x - y)\<^sup>2) (zip a b)) / real (length a))"

subsection \<open>SpectrumEstimator\<close>

text \<open>
  A float64 quotient of numpy, with the division by zero written out: \<^verbatim>\<open>0/0\<close> is NaN and
  \<^verbatim>\<open>x/0\<close> is an infinity with the sign of \<^verbatim>\<open>x\<close> (a warning is printed, nothing is raised).
\<close>

definition np_divide :: "real \<Rightarrow> real \<Rightarrow> np_float" where
  "np_divide a d =
     (if d \<noteq> 0 then Finite (a / d)
      else if a = 0 then NaN else if 0 < a then PosInf else NegInf)"

text \<open>\<^verbatim>\<open>np.mean(y)\<close>. On an empty array the mean is not a number, and is never used.\<close>

definition np_mean :: "real list \<Rightarrow> real" where
  "np_mean y = sum_list y / real (length y)"

text \<open>
  \<^verbatim>\<open>np.hanning(M)\<close>: empty for \<^verbatim>\<open>M < 1\<close>, \<^verbatim>\<open>[1.]\<close> for \<^verbatim>\<open>M == 1\<close>, and otherwise
  \<^verbatim>\<open>0.5 + 0.5*cos(pi*n/(M-1))\<close> at \<^verbatim>\<open>n = arange(1-M, M, 2)\<close>.
\<close>

definition np_hanning :: "nat \<Rightarrow> real list" where
  "np_hanning M =
     (if M < 1 then []
      else if M = 1 then [1]
      else map (\<lambda>k. 0.5 + 0.5 * cos (pi * (1 - real M + 2 * real k) / (real M - 1))) [0..<M])"

text \<open>
  \<^verbatim>\<open>np.fft.rfft(a, n=n)\<close>: the input is cropped or padded with zeros to length \<^verbatim>\<open>n\<close>, and the
  bins \<^verbatim>\<open>0 .. n//2\<close> of its discrete Fourier transform are returned.
\<close>

definition np_rfft :: "real list \<Rightarrow> nat \<Rightarrow> error + complex list" where
  "np_rfft a n =
     (if n < 1 then Inl ValueError
      else let z = take n a @ replicate (n - length a) 0
           in Inr (map (\<lambda>k. \<Sum>j\<leftarrow>[0..<n]. of_real (z ! j) * cis (- 2 * pi * real j * real k / real n))
                       [0..<n div 2 + 1]))"

text \<open>\<^verbatim>\<open>np.fft.rfftfreq(n, d)\<close>: \<^verbatim>\<open>arange(0, n//2 + 1) * (1.0/(n*d))\<close>.\<close>

definition np_rfftfreq :: "nat \<Rightarrow> real \<Rightarrow> real list" where
  "np_rfftfreq n d = (let val = 1 / (real n * d) in map (\<lambda>k. real k * val) [0..<n div 2 + 1])"

text \<open>The loop \<^verbatim>\<open>while n_fft < n: n_fft <<= 1\<close>, started by \<^verbatim>\<open>compute_psd\<close> at \<^verbatim>\<open>n_fft = 1\<close>.\<close>

partial_function (option) next_pow2 :: "nat \<Rightarrow> nat \<Rightarrow> nat option" where
  "next_pow2 n_fft n = (if n_fft < n then next_pow2 (2 * n_fft) n else Some n_fft)"

text \<open>
  \<^verbatim>\<open>scipy.signal.welch\<close> is not part of the repository. It is a parameter of the model: a
  function of the keyword arguments \<^verbatim>\<open>compute_psd\<close> passes, which returns a spectrum or
  raises. The import that fails is the function that always raises.
\<close>

record welch_args =
  w_x :: "real list"
  w_fs :: nat
  w_window :: string
  w_nperseg :: nat
  w_noverlap :: nat
  w_detrend :: string
  w_scaling :: string

type_synonym spectrum = "real list \<times> np_float list"

definition welch_unavailable :: "welch_args \<Rightarrow> error + spectrum" where
  "welch_unavailable args = Inl ImportError"

text \<open>
  The \<^verbatim>\<open>except Exception\<close> branch of \<^verbatim>\<open>compute_psd\<close>, on the mean-removed signal. The result
  is \<^const>\<open>None\<close> when the loop does not end.
\<close>

definition psd_fallback :: "real list \<Rightarrow> nat \<Rightarrow> (error + spectrum) option" where
  "psd_fallback y sr =
     (let n = length y in
      case next_pow2 1 n of
        None \<Rightarrow> None
      | Some n_fft \<Rightarrow>
          Some (let win = np_hanning n in
                case np_rfft (map2 (*) (take n y) win) n_fft of
                  Inl e \<Rightarrow> Inl e
                | Inr Y \<Rightarrow>
                    (let Pxx = map (\<lambda>z. np_divide ((cmod z)\<^sup>2)
                                        (sum_list (map (\<lambda>w. w\<^sup>2) win) * real sr)) Y
                     in if sr = 0 then Inl ZeroDivisionError
                        else Inr (np_rfftfreq n_fft (1 / real sr), Pxx))))"

text \<open>
  \<^verbatim>\<open>compute_psd(y, sr)\<close>. Every exception of the \<^verbatim>\<open>try\<close> block, the failed import included,
  leads to the fallback.
\<close>

definition compute_psd ::
  "(welch_args \<Rightarrow> error + spectrum) \<Rightarrow> real list \<Rightarrow> nat \<Rightarrow> (error + spectrum) option" where
  "compute_psd welch y0 sr =
     (let y = map (\<lambda>v. v - np_mean y0) y0;
          nperseg = max (min (length y) 8192) 256
      in case welch \<lparr>w_x = y, w_fs = sr, w_window = ''hann'', w_nperseg = nperseg,
                     w_noverlap = nperseg div 2, w_detrend = ''constant'',
                     w_scaling = ''spectrum''\<rparr> of
           Inr r \<Rightarrow> Some (Inr r)
         | Inl e \<Rightarrow> psd_fallback y sr)"

text \<open>
  \<^verbatim>\<open>main\<close>, from the decoded samples \<^verbatim>\<open>y, sr = read_audio(path)\<close> to the spectrum:
  \<^verbatim>\<open>duration = len(y) / sr\<close>, then \<^verbatim>\<open>f, Pxx = compute_psd(y, sr)\<close>. No statement between
  the two looks at the length of \<^verbatim>\<open>y\<close>.
\<close>

definition main_psd ::
  "(welch_args \<Rightarrow> error + spectrum) \<Rightarrow> real list \<Rightarrow> nat \<Rightarrow> (error + real \<times> spectrum) option" where
  "main_psd welch y sr =
     (if sr = 0 then Some (Inl ZeroDivisionError)
      else let duration = real (length y) / real sr in
           case compute_psd welch y sr of
             None \<Rightarrow> None
           | Some (Inl e) \<Rightarrow> Some (Inl e)
           | Some (Inr s) \<Rightarrow> Some (Inr (duration, s)))"

subsection \<open>The fallback estimator in the words of the specification\<close>

text \<open>The Hann window of length \<open>n\<close>: \<open>1/2 - 1/2 cos (2 \<pi> j / (n - 1))\<close> at \<open>j < n\<close>.\<close>

definition hann_window :: "nat \<Rightarrow> real list" where
  "hann_window n =
     map (\<lambda>j. if n = 1 then 1 else 1 / 2 - 1 / 2 * cos (2 * pi * real j / (real n - 1))) [0..<n]"

text \<open>
  The one-sided spectrum of the windowed signal \<open>x\<close>, padded with zeros to length \<open>N\<close>: bin
  \<open>b \<le> N div 2\<close> is at frequency \<open>b sr / N\<close>, and its power is the squared magnitude of
  the transform divided by the sum of the squared window values times the sample rate.
\<close>

definition spec_fallback_psd :: "real list \<Rightarrow> nat \<Rightarrow> nat \<Rightarrow> spectrum" where
  "spec_fallback_psd x sr N =
     (let n = length x; w = hann_window n in
      (map (\<lambda>b. real b * real sr / real N) [0..<N div 2 + 1],
       map (\<lambda>b. np_divide
                  ((cmod (\<Sum>j<n. of_real (x ! j * w ! j) *
                                   cis (- 2 * pi * real j * real b / real N)))\<^sup>2)
                  (sum_list (map (\<lambda>v. v\<^sup>2) w) * real sr))
           [0..<N div 2 + 1]))"

subsection \<open>Auxiliary notions for the energy bounds\<close>

text \<open>
  The sum of the trapezoid terms over the adjacent pairs of samples whose two frequencies
  both satisfy a condition, and the conditions that select a run of a sorted array: they
  are used only to state and prove bounds on band energies.
\<close>

fun adjacent_sum :: "(real \<Rightarrow> bool) \<Rightarrow> real list \<Rightarrow> real list \<Rightarrow> real" where
  "adjacent_sum c (y0 # y1 # ys) (x0 # x1 # xs) =
     (if c x0 \<and> c x1 then (x1 - x0) * (y1 + y0) / 2 else 0) + adjacent_sum c (y1 # ys) (x1 # xs)"
| "adjacent_sum c ys xs = 0"

definition convex_pred :: "(real \<Rightarrow> bool) \<Rightarrow> bool" where
  "convex_pred c = (\<forall>x y z. x \<le> y \<and> y \<le> z \<and> c x \<and> c z \<longrightarrow> c y)"


section \<open>Properties of the BandAnalyzer\<close>

subsection \<open>Index selection and integration\<close>

lemma np_where_set: "set (np_where c f) = {i. i < length f \<and> c (f ! i)}"
  by (auto simp: np_where_def)

lemma np_where_sorted: "sorted (np_where c f)"
  by (simp add: np_where_def sorted_wrt_filter)

lemma np_where_distinct: "distinct (np_where c f)"
  by (simp add: np_where_def)

lemma np_where_bound: "i \<in> set (np_where c f) \<Longrightarrow> i < length f"
  by (simp add: np_where_set)

lemma np_take_in_range:
  "(\<And>i. i \<in> set idx \<Longrightarrow> i < length a) \<Longrightarrow> np_take a idx = Inr (map ((!) a) idx)"
  by (simp add: np_take_def list_all_iff)

lemma np_take_where:
  "length f \<le> length a \<Longrightarrow> np_take a (np_where c f) = Inr (map ((!) a) (np_where c f))"
  by (rule np_take_in_range) (auto simp: np_where_set)

lemma band_energy_eq:
  assumes "length f = length Pxx"
  shows "band_energy f Pxx lo hi =
         Inr (trapezoid (map ((!) Pxx) (np_where (\<lambda>x. lo \<le> x \<and> x < hi) f))
                        (map ((!) f) (np_where (\<lambda>x. lo \<le> x \<and> x < hi) f)))"
  using assms by (simp add: band_energy_def Let_def np_take_where)

lemma map_nth_update_other:
  "i \<notin> set idx \<Longrightarrow> map ((!) (a[i := v])) idx = map ((!) a) idx"
  by (induction idx) auto

lemma trapezoid_single: "length ys = 1 \<Longrightarrow> trapezoid ys xs = 0"
  by (cases ys; cases "tl ys") auto


lemma three_indices: "[0..<3] = [0, Suc 0, Suc (Suc 0)]"
  by (simp add: numeral_3_eq_3 upt_rec)

subsection \<open>The percentage of a band\<close>

lemma float_overflow_pos: "0 < float_overflow"
proof -
  have "(2::real) ^ 970 < 2 ^ 1024"
    by (rule power_strict_increasing) simp_all
  then show ?thesis
    by (simp add: float_overflow_def)
qed

lemma py_truediv_nonzero: "d \<noteq> 0 \<Longrightarrow> \<exists>p. py_truediv a d = Inr p"
  by (simp add: py_truediv_def)

lemma pct_of_zero: "d \<noteq> 0 \<Longrightarrow> py_truediv (py_mul 100 0) d = Inr (Finite 0)"
  using float_overflow_pos by (simp add: py_truediv_def py_mul_def py_float_def)


lemma band_rows_ok:
  assumes "length f = length Pxx" and "tot \<noteq> 0"
  shows "band_rows f Pxx tot bands =
         Inr (map (\<lambda>(name, lo, hi).
                \<lparr>band = name, lo_hz = lo, hi_hz = hi,
                 energy = trapezoid (map ((!) Pxx) (np_where (\<lambda>x. lo \<le> x \<and> x < hi) f))
                        (map ((!) f) (np_where (\<lambda>x. lo \<le> x \<and> x < hi) f)),
                 pct = projr (py_truediv (py_mul 100
                        (trapezoid (map ((!) Pxx) (np_where (\<lambda>x. lo \<le> x \<and> x < hi) f))
                          (map ((!) f) (np_where (\<lambda>x. lo \<le> x \<and> x < hi) f)))) tot)\<rparr>) bands)"
proof (induction bands)
  case Nil
  show ?case by simp
next
  case (Cons b bands)
  obtain name lo hi where b: "b = (name, lo, hi)"
    by (cases b)
  define e where "e = trapezoid (map ((!) Pxx) (np_where (\<lambda>x. lo \<le> x \<and> x < hi) f))
                        (map ((!) f) (np_where (\<lambda>x. lo \<le> x \<and> x < hi) f))"
  obtain p where p: "py_truediv (py_mul 100 e) tot = Inr p"
    using py_truediv_nonzero[OF assms(2)] by blast
  have "band_rows f Pxx tot (b # bands) =
    Inr (\<lparr>band = name, lo_hz = lo, hi_hz = hi, energy = e, pct = p\<rparr> #
         projr (band_rows f Pxx tot bands))"
    unfolding b band_rows.simps band_energy_eq[OF assms(1)] sum.case e_def[symmetric] p Cons.IH
    by simp
  then show ?case
    unfolding Cons.IH b using p by (simp add: e_def)
qed


lemma summarize_bands_rows:
  assumes "length f = length Pxx" and "summarize_bands f Pxx air_lo air_hi = Inr (out, tot, bands)"
  shows "tot \<noteq> 0" and "band_rows f Pxx tot bands = Inr out"
  using assms
  by (auto simp: summarize_bands_def Let_def np_mask_def split: sum.splits if_splits)

subsection \<open>The energy of a band on ascending frequencies\<close>

lemma zip_as_map_nth:
  "length a = length f \<Longrightarrow> zip a f = map (\<lambda>i. (a ! i, f ! i)) [0..<length f]"
  by (rule nth_equalityI) simp_all

lemma take_where_values: "map ((!) f) (np_where c f) = filter c f"
proof -
  have "filter c (map ((!) f) [0..<length f]) = map ((!) f) (np_where c f)"
    by (simp add: np_where_def filter_map comp_def)
  then show ?thesis by (simp add: map_nth)
qed

lemma take_where_powers:
  assumes "length a = length f"
  shows "map ((!) a) (np_where c f) = map fst (filter (\<lambda>p. c (snd p)) (zip a f))"
  by (simp add: zip_as_map_nth[OF assms] filter_map comp_def np_where_def)



lemma adjacent_sum_none:
  "\<forall>z\<in>set xs. \<not> c z \<Longrightarrow> adjacent_sum c ys xs = 0"
  by (induction c ys xs rule: adjacent_sum.induct) auto

lemma adjacent_sum_skip:
  "\<not> c x \<Longrightarrow> adjacent_sum c (y # ys) (x # xs) = adjacent_sum c ys xs"
  by (cases ys; cases xs) auto

lemma trapezoid_head_selected:
  assumes "length ys = length xs" "sorted (x # xs)" "convex_pred c" "c x"
  shows "trapezoid (y # map fst (filter (\<lambda>p. c (snd p)) (zip ys xs))) (x # filter c xs)
         = adjacent_sum c (y # ys) (x # xs)"
  using assms
proof (induction ys xs arbitrary: x y rule: list_induct2)
  case Nil
  then show ?case by simp
next
  case (Cons y' ys x' xs)
  show ?case
  proof (cases "c x'")
    case True
    have "sorted (x' # xs)" using Cons.prems(1) by simp
    from Cons.IH[OF this Cons.prems(2) True, of y'] True Cons.prems(3)
    show ?thesis by simp
  next
    case False
    have none: "\<forall>z\<in>set xs. \<not> c z"
    proof
      fix z assume "z \<in> set xs"
      then have "x \<le> x'" "x' \<le> z" using Cons.prems(1) by auto
      then show "\<not> c z"
        using Cons.prems(2,3) False unfolding convex_pred_def by blast
    qed
    then have "filter c xs = []" by (simp add: filter_empty_conv)
    moreover have "filter (\<lambda>p. c (snd p)) (zip ys xs) = []"
      using none by (auto simp: filter_empty_conv dest: set_zip_rightD)
    moreover have "adjacent_sum c (y' # ys) (x' # xs) = 0"
      using none False by (intro adjacent_sum_none) simp
    ultimately show ?thesis using False by simp
  qed
qed

lemma trapezoid_selected:
  assumes "length ys = length xs" "sorted xs" "convex_pred c"
  shows "trapezoid (map fst (filter (\<lambda>p. c (snd p)) (zip ys xs))) (filter c xs)
         = adjacent_sum c ys xs"
  using assms
proof (induction ys xs rule: list_induct2)
  case Nil
  then show ?case by simp
next
  case (Cons y ys x xs)
  show ?case
  proof (cases "c x")
    case True
    then show ?thesis
      using trapezoid_head_selected[OF Cons.hyps Cons.prems(1) Cons.prems(2) True, of y] by simp
  next
    case False
    have "sorted xs" using Cons.prems(1) by simp
    from Cons.IH[OF this Cons.prems(2)] False show ?thesis
      by (simp add: adjacent_sum_skip)
  qed
qed



lemma band_energy_adjacent:
  assumes "length f = length Pxx" "sorted f"
  shows "band_energy f Pxx lo hi = Inr (adjacent_sum (\<lambda>x. lo \<le> x \<and> x < hi) Pxx f)"
proof -
  have len: "length Pxx = length f" using assms(1) by simp
  have cv: "convex_pred (\<lambda>x. lo \<le> x \<and> x < hi)" by (auto simp: convex_pred_def)
  show ?thesis
    unfolding band_energy_eq[OF assms(1)] take_where_values take_where_powers[OF len]
      trapezoid_selected[OF len assms(2) cv] ..
qed

lemma adjacent_sum_update:
  assumes "length ys = length xs" and "i < length xs"
  shows "adjacent_sum c (ys[i := v]) xs =
         adjacent_sum c ys xs
         + (v - ys ! i) *
           ((if 0 < i \<and> c (xs ! (i - 1)) \<and> c (xs ! i) then (xs ! i - xs ! (i - 1)) / 2 else 0)
            + (if Suc i < length xs \<and> c (xs ! i) \<and> c (xs ! Suc i)
               then (xs ! Suc i - xs ! i) / 2 else 0))"
  using assms
proof (induction c ys xs arbitrary: i rule: adjacent_sum.induct)
  case (1 c y0 y1 ys x0 x1 xs)
  show ?case
  proof (cases i)
    case 0
    then show ?thesis
      by (auto simp: field_simps)
  next
    case (Suc j)
    have len: "length (y1 # ys) = length (x1 # xs)" "j < length (x1 # xs)"
      using "1.prems" Suc by simp_all
    note IH = "1.IH"[OF len]
    show ?thesis
    proof (cases j)
      case 0
      have "adjacent_sum c ((y0 # y1 # ys)[i := v]) (x0 # x1 # xs) =
            (if c x0 \<and> c x1 then (x1 - x0) * (v + y0) / 2 else 0)
            + adjacent_sum c ((y1 # ys)[0 := v]) (x1 # xs)"
        using Suc 0 by simp
      also have "adjacent_sum c ((y1 # ys)[0 := v]) (x1 # xs) =
            adjacent_sum c (y1 # ys) (x1 # xs)
            + (v - y1) * (if Suc 0 < length (x1 # xs) \<and> c x1 \<and> c ((x1 # xs) ! Suc 0)
                          then ((x1 # xs) ! Suc 0 - x1) / 2 else 0)"
        using IH 0 by simp
      finally show ?thesis
        using Suc 0 by (auto simp: field_simps)
    next
      case (Suc k)
      have "adjacent_sum c ((y0 # y1 # ys)[i := v]) (x0 # x1 # xs) =
            (if c x0 \<and> c x1 then (x1 - x0) * (y1 + y0) / 2 else 0)
            + adjacent_sum c ((y1 # ys)[j := v]) (x1 # xs)"
        using \<open>i = Suc j\<close> Suc by simp
      then show ?thesis
        unfolding IH using \<open>i = Suc j\<close> Suc by simp
    qed
  qed
qed (auto simp: length_Suc_conv Suc_length_conv)


subsection \<open>Half-open band membership\<close>

text \<open>
  C1 (as amended). On a spectrum whose two arrays have one length, band_energy integrates
  over exactly the samples with \<open>lo \<le> f < hi\<close>, taken once each in ascending order, and no
  sample is selected by both of two adjacent bands. A sample whose frequency equals the
  upper edge \<open>hi\<close> is not selected for the band \<open>[lo, hi)\<close> and its power has no influence
  on the energy of that band; it is selected for any adjacent band \<open>[hi, hi')\<close> with
  \<open>hi < hi'\<close>. What it contributes to the energy of \<open>[hi, hi')\<close> is, on frequencies in
  non-decreasing order, its half of the trapezoid to the next sample: when its power goes
  from \<open>p\<close> to \<open>v\<close> the energy of the band grows by \<open>(v - p) (f\<^sub>n\<^sub>e\<^sub>x\<^sub>t - hi) / 2\<close> if the next
  sample is in the band, and does not change if the sample is the last one of the band.
\<close>

theorem band_membership_half_open:
  assumes "length f = length Pxx"
  shows "band_energy f Pxx lo hi =
           Inr (trapezoid (map ((!) Pxx) (np_where (\<lambda>x. lo \<le> x \<and> x < hi) f))
                          (map ((!) f) (np_where (\<lambda>x. lo \<le> x \<and> x < hi) f)))
       \<and> set (np_where (\<lambda>x. lo \<le> x \<and> x < hi) f) = {i. i < length f \<and> lo \<le> f ! i \<and> f ! i < hi}
       \<and> sorted (np_where (\<lambda>x. lo \<le> x \<and> x < hi) f)
       \<and> distinct (np_where (\<lambda>x. lo \<le> x \<and> x < hi) f)
       \<and> (\<forall>i<length f. f ! i = hi \<longrightarrow>
             i \<notin> set (np_where (\<lambda>x. lo \<le> x \<and> x < hi) f)
           \<and> (\<forall>v. band_energy f (Pxx[i := v]) lo hi = band_energy f Pxx lo hi)
           \<and> (hi < hi' \<longrightarrow> i \<in> set (np_where (\<lambda>x. hi \<le> x \<and> x < hi') f))
           \<and> (hi < hi' \<and> sorted f \<longrightarrow>
                (\<exists>e. band_energy f Pxx hi hi' = Inr e
                   \<and> (\<forall>v. band_energy f (Pxx[i := v]) hi hi' =
                          Inr (e + (v - Pxx ! i) *
                                   (if Suc i < length f \<and> f ! Suc i < hi'
                                    then (f ! Suc i - f ! i) / 2 else 0))))))
       \<and> set (np_where (\<lambda>x. lo \<le> x \<and> x < hi) f) \<inter> set (np_where (\<lambda>x. hi \<le> x \<and> x < hi') f) = {}"
proof -
  let ?A = "np_where (\<lambda>x. lo \<le> x \<and> x < hi) f"
  have upd: "band_energy f (Pxx[i := v]) lo hi = band_energy f Pxx lo hi"
    if "i < length f" "f ! i = hi" for i v
  proof -
    have "i \<notin> set ?A" using that by (simp add: np_where_set)
    then have eq: "map ((!) (Pxx[i := v])) ?A = map ((!) Pxx) ?A"
      by (rule map_nth_update_other)
    have len: "length f = length (Pxx[i := v])" using assms by simp
    show ?thesis
      unfolding band_energy_eq[OF assms] band_energy_eq[OF len] eq ..
  qed
  have upper: "\<exists>e. band_energy f Pxx hi hi' = Inr e
                   \<and> (\<forall>v. band_energy f (Pxx[i := v]) hi hi' =
                          Inr (e + (v - Pxx ! i) *
                                   (if Suc i < length f \<and> f ! Suc i < hi'
                                    then (f ! Suc i - f ! i) / 2 else 0)))"
    if i: "i < length f" and fi: "f ! i = hi" and hh: "hi < hi'" and s: "sorted f" for i
  proof -
    let ?c = "\<lambda>x. hi \<le> x \<and> x < hi'"
    have left: "(if 0 < i \<and> ?c (f ! (i - 1)) \<and> ?c (f ! i) then (f ! i - f ! (i - 1)) / 2 else 0) = 0"
    proof (cases "0 < i \<and> ?c (f ! (i - 1))")
      case True
      then have "f ! (i - 1) \<le> f ! i"
        using s i by (intro sorted_nth_mono) simp_all
      with True fi have "f ! (i - 1) = f ! i"
        by simp
      then show ?thesis by simp
    next
      case False
      then show ?thesis by auto
    qed
    have right: "(Suc i < length f \<and> ?c (f ! i) \<and> ?c (f ! Suc i))
                 = (Suc i < length f \<and> f ! Suc i < hi')"
    proof (cases "Suc i < length f")
      case True
      then have "f ! i \<le> f ! Suc i"
        using s by (intro sorted_nth_mono) simp_all
      then show ?thesis
        using fi hh by auto
    next
      case False
      then show ?thesis by simp
    qed
    have len: "length Pxx = length f" using assms by simp
    have "band_energy f (Pxx[i := v]) hi hi' =
          Inr (adjacent_sum ?c Pxx f + (v - Pxx ! i) *
                 (if Suc i < length f \<and> f ! Suc i < hi' then (f ! Suc i - f ! i) / 2 else 0))" for v
    proof -
      have l: "length f = length (Pxx[i := v])" using assms by simp
      show ?thesis
        unfolding band_energy_adjacent[OF l s] adjacent_sum_update[OF len i] left right
        by simp
    qed
    then show ?thesis
      unfolding band_energy_adjacent[OF assms s] by blast
  qed
  show ?thesis
    using upd upper
    by (auto simp: band_energy_eq[OF assms] np_where_set np_where_sorted np_where_distinct)
qed

lemma six_indices: "[0..<6] = [0, 1, 2, 3, 4, 5]"
  by (simp add: eval_nat_numeral upt_rec)

text \<open>
  Six samples, with the fourth at the shared edge 250 Hz of the bands \<open>[60, 250)\<close> and
  \<open>[250, 400)\<close>: raising its power from 1 to 3 leaves the energy 100 of the lower band and
  takes the energy of the upper band from 50 to 100.
\<close>

theorem band_membership_half_open_witness:
  "3 \<notin> set (np_where (\<lambda>x. 60 \<le> x \<and> x < 250) [0, 100, 200, 250, 300, 400])
   \<and> 3 \<in> set (np_where (\<lambda>x. 250 \<le> x \<and> x < 400) [0, 100, 200, 250, 300, 400])
   \<and> band_energy [0, 100, 200, 250, 300, 400] [0, 1, 1, 1, 1, 0] 60 250 = Inr 100
   \<and> band_energy [0, 100, 200, 250, 300, 400] ([0, 1, 1, 1, 1, 0][3 := 3]) 60 250 = Inr 100
   \<and> band_energy [0, 100, 200, 250, 300, 400] [0, 1, 1, 1, 1, 0] 250 400 = Inr 50
   \<and> band_energy [0, 100, 200, 250, 300, 400] ([0, 1, 1, 1, 1, 0][3 := 3]) 250 400 = Inr 100"
proof -
  let ?f = "[0, 100, 200, 250, 300, 400 :: real]"
  let ?P = "[0, 1, 1, 1, 1, 0 :: real]"
  have h: "length ?f = length ?P" by simp
  have i: "3 < length ?f" "?f ! 3 = 250" "(250::real) < 400" "sorted ?f"
    by simp_all
  have l: "length ?f = 6" by simp
  have eA: "band_energy ?f ?P 60 250 = Inr 100"
    by (simp add: band_energy_def np_where_def np_take_def Let_def l six_indices)
  have eB: "band_energy ?f ?P 250 400 = Inr 50"
    by (simp add: band_energy_def np_where_def np_take_def Let_def l six_indices)
  from band_membership_half_open[OF h, of 60 250 400] i have
    m: "3 \<notin> set (np_where (\<lambda>x. 60 \<le> x \<and> x < 250) ?f)"
       "3 \<in> set (np_where (\<lambda>x. 250 \<le> x \<and> x < 400) ?f)"
    and a: "band_energy ?f (?P[3 := 3]) 60 250 = band_energy ?f ?P 60 250"
    and "\<exists>e. band_energy ?f ?P 250 400 = Inr e
           \<and> (\<forall>v. band_energy ?f (?P[3 := v]) 250 400 =
                  Inr (e + (v - ?P ! 3) *
                         (if Suc 3 < length ?f \<and> ?f ! Suc 3 < 400
                          then (?f ! Suc 3 - ?f ! 3) / 2 else 0)))"
    by blast+
  then obtain e where e: "band_energy ?f ?P 250 400 = Inr e"
    and u: "band_energy ?f (?P[3 := 3]) 250 400 =
             Inr (e + (3 - ?P ! 3) *
                    (if Suc 3 < length ?f \<and> ?f ! Suc 3 < 400
                     then (?f ! Suc 3 - ?f ! 3) / 2 else 0))"
    by blast
  from e eB have "e = 50" by simp
  with u have b: "band_energy ?f (?P[3 := 3]) 250 400 = Inr 100"
    by simp
  from m a eA eB b show ?thesis
    by simp
qed

text \<open>
  The claim has the sample at the shared edge contribute its energy to the upper band. A
  sample of unit power at 250 Hz that is the only sample of \<open>[250, 400)\<close> is selected for
  that band, and the energy of the band is 0, as it is when the power of the sample is 0.
\<close>

theorem band_membership_half_open_counterexample:
  "np_where (\<lambda>x. 250 \<le> x \<and> x < 400) [0, 250, 400] = [1]
   \<and> band_energy [0, 250, 400] [0, 1, 0] 250 400 = Inr 0
   \<and> band_energy [0, 250, 400] [0, 0, 0] 250 400 = Inr 0"
  by (simp add: band_energy_def np_where_def np_take_def Let_def three_indices)

subsection \<open>A band holding one sample\<close>

text \<open>
  C10. If exactly one sample of the spectrum has its frequency in \<open>[lo, hi)\<close>, the
  band's energy is 0, and the row that summarize_bands returns for such a band has
  energy 0 and pct 0, whatever the power of that sample.
\<close>

theorem single_sample_band_zero:
  assumes "length f = length Pxx"
  shows "(card {i. i < length f \<and> lo \<le> f ! i \<and> f ! i < hi} = 1 \<longrightarrow> band_energy f Pxx lo hi = Inr 0)
       \<and> (\<forall>out tot bands r. summarize_bands f Pxx air_lo air_hi = Inr (out, tot, bands) \<longrightarrow>
             r \<in> set out \<longrightarrow>
             card {i. i < length f \<and> lo_hz r \<le> f ! i \<and> f ! i < hi_hz r} = 1 \<longrightarrow>
             energy r = 0 \<and> pct r = Finite 0)"
proof -
  have one: "trapezoid (map ((!) Pxx) (np_where (\<lambda>x. l \<le> x \<and> x < h) f))
                       (map ((!) f) (np_where (\<lambda>x. l \<le> x \<and> x < h) f)) = 0"
    if "card {i. i < length f \<and> l \<le> f ! i \<and> f ! i < h} = 1" for l h
  proof -
    have "length (np_where (\<lambda>x. l \<le> x \<and> x < h) f) = card (set (np_where (\<lambda>x. l \<le> x \<and> x < h) f))"
      by (simp add: distinct_card np_where_distinct)
    then have "length (np_where (\<lambda>x. l \<le> x \<and> x < h) f) = 1"
      using that by (simp add: np_where_set)
    then show ?thesis by (simp add: trapezoid_single)
  qed
  have rows: "energy r = 0 \<and> pct r = Finite 0"
    if sb: "summarize_bands f Pxx air_lo air_hi = Inr (out, tot, bands)" and r: "r \<in> set out"
      and c: "card {i. i < length f \<and> lo_hz r \<le> f ! i \<and> f ! i < hi_hz r} = 1"
    for out tot bands r
  proof -
    note tot = summarize_bands_rows(1)[OF assms sb]
    note out = summarize_bands_rows(2)[OF assms sb]
    from out r obtain name l h where
      r': "r = \<lparr>band = name, lo_hz = l, hi_hz = h,
                 energy = trapezoid (map ((!) Pxx) (np_where (\<lambda>x. l \<le> x \<and> x < h) f))
                        (map ((!) f) (np_where (\<lambda>x. l \<le> x \<and> x < h) f)),
                 pct = projr (py_truediv (py_mul 100
                        (trapezoid (map ((!) Pxx) (np_where (\<lambda>x. l \<le> x \<and> x < h) f))
                          (map ((!) f) (np_where (\<lambda>x. l \<le> x \<and> x < h) f)))) tot)\<rparr>"
      unfolding band_rows_ok[OF assms tot] by auto
    have "card {i. i < length f \<and> l \<le> f ! i \<and> f ! i < h} = 1"
      using c unfolding r' by simp
    from one[OF this] show ?thesis
      unfolding r' by (simp add: pct_of_zero[OF tot])
  qed
  show ?thesis
    using one rows by (auto simp: band_energy_eq[OF assms])
qed

theorem single_sample_band_zero_witness:
  "length [0, 100, 300 :: real] = length [1, 5, 1 :: real]
   \<and> card {i. i < length [0, 100, 300 :: real] \<and> 60 \<le> [0, 100, 300 :: real] ! i \<and> [0, 100, 300 :: real] ! i < 250} = 1
   \<and> band_energy [0, 100, 300] [1, 5, 1] 60 250 = Inr 0"
proof -
  have h: "length [0, 100, 300 :: real] = length [1, 5, 1 :: real]" by simp
  have "{i. i < length [0, 100, 300 :: real] \<and> 60 \<le> [0, 100, 300 :: real] ! i \<and> [0, 100, 300 :: real] ! i < 250} = {1}"
    by (auto simp: nth_Cons' less_Suc_eq numeral_3_eq_3 split: if_splits)
  then have c: "card {i. i < length [0, 100, 300 :: real] \<and> 60 \<le> [0, 100, 300 :: real] ! i \<and> [0, 100, 300 :: real] ! i < 250} = 1"
    by simp
  from single_sample_band_zero[OF h, of 60 250] c h show ?thesis by blast
qed

section \<open>Properties of summarize_bands and estimate_fundamental\<close>


subsection \<open>The denominator of the percentages\<close>






subsection \<open>The peak in the search window\<close>

lemma fold_max_Max: "fold max xs (x::real) = Max (set (x # xs))"
  by (simp only: Max.set_eq_fold)

lemma np_max_Max: "ys \<noteq> [] \<Longrightarrow> np_max ys = Inr (Max (set ys))"
  by (cases ys) (simp, simp only: np_max.simps fold_max_Max)

lemma first_hit_less:
  "m \<in> set ys \<Longrightarrow> length (takeWhile (\<lambda>v. v \<noteq> m) ys) < length ys"
  by (induction ys) auto

lemma first_hit_nth:
  "m \<in> set ys \<Longrightarrow> ys ! length (takeWhile (\<lambda>v. v \<noteq> m) ys) = m"
  by (induction ys) auto

lemma before_first_hit:
  "j < length (takeWhile (\<lambda>v. v \<noteq> m) ys) \<Longrightarrow> ys ! j \<noteq> m"
proof (induction ys arbitrary: j)
  case Nil
  then show ?case by simp
next
  case (Cons a ys)
  show ?case
  proof (cases j)
    case 0
    with Cons.prems show ?thesis by (simp split: if_splits)
  next
    case (Suc j')
    with Cons.prems have "j' < length (takeWhile (\<lambda>v. v \<noteq> m) ys)"
      by (simp split: if_splits)
    then have "ys ! j' \<noteq> m" by (rule Cons.IH)
    with Suc show ?thesis by simp
  qed
qed

lemma np_argmax_first:
  assumes "ys \<noteq> []"
  shows "\<exists>k. np_argmax ys = Inr k \<and> k < length ys \<and> ys ! k = Max (set ys)
            \<and> (\<forall>j<k. ys ! j < Max (set ys))"
proof -
  let ?m = "Max (set ys)"
  let ?k = "length (takeWhile (\<lambda>v. v \<noteq> ?m) ys)"
  have arg: "np_argmax ys = Inr ?k"
    using assms by (cases ys) (simp, simp only: np_argmax.simps fold_max_Max)
  have mem: "?m \<in> set ys" using assms by (intro Max_in) simp_all
  have lt: "?k < length ys" using mem by (rule first_hit_less)
  have at: "ys ! ?k = ?m" using mem by (rule first_hit_nth)
  have before: "ys ! j < ?m" if "j < ?k" for j
  proof -
    have "ys ! j \<noteq> ?m" using that by (rule before_first_hit)
    moreover have "ys ! j \<le> ?m" using that lt by (intro Max_ge) simp_all
    ultimately show ?thesis by simp
  qed
  show ?thesis using arg lt at before by blast
qed

text \<open>
  C3. On every spectrum whose two arrays have one length and every window \<open>[lo, hi]\<close>,
  estimate_fundamental returns the absent value None exactly when no sample has its
  frequency in the closed window or the largest power among those samples is \<open>\<le> 0\<close>;
  otherwise it returns the frequency of a sample of the window itself, the first one
  that carries the largest power, which is positive.
\<close>

theorem estimate_fundamental_peak_or_absent:
  assumes "length f = length Pxx"
  shows "(estimate_fundamental f Pxx lo hi = Inr None) =
           ({i. i < length f \<and> lo \<le> f ! i \<and> f ! i \<le> hi} = {}
            \<or> Max ((!) Pxx ` {i. i < length f \<and> lo \<le> f ! i \<and> f ! i \<le> hi}) \<le> 0)
       \<and> (estimate_fundamental f Pxx lo hi \<noteq> Inr None \<longrightarrow>
            (\<exists>k \<in> {i. i < length f \<and> lo \<le> f ! i \<and> f ! i \<le> hi}.
               estimate_fundamental f Pxx lo hi = Inr (Some (f ! k))
             \<and> Pxx ! k = Max ((!) Pxx ` {i. i < length f \<and> lo \<le> f ! i \<and> f ! i \<le> hi})
             \<and> 0 < Pxx ! k
             \<and> (\<forall>j \<in> {i. i < length f \<and> lo \<le> f ! i \<and> f ! i \<le> hi}. j < k \<longrightarrow> Pxx ! j < Pxx ! k)))"
proof -
  let ?idx = "np_where (\<lambda>x. lo \<le> x \<and> x \<le> hi) f"
  let ?W = "{i. i < length f \<and> lo \<le> f ! i \<and> f ! i \<le> hi}"
  let ?sub_p = "map ((!) Pxx) ?idx"
  let ?sub_f = "map ((!) f) ?idx"
  have W: "set ?idx = ?W" by (simp add: np_where_set)
  have tf: "np_take f ?idx = Inr ?sub_f" by (simp add: np_take_where)
  have tp: "np_take Pxx ?idx = Inr ?sub_p" using assms by (simp add: np_take_where)
  have img: "set ?sub_p = (!) Pxx ` ?W" using W by simp
  show ?thesis
  proof (cases "?idx = []")
    case True
    then have "?W = {}" using W by simp
    moreover have "estimate_fundamental f Pxx lo hi = Inr None"
      using True by (simp add: estimate_fundamental_def)
    ultimately show ?thesis by simp
  next
    case False
    then have ne: "?W \<noteq> {}" using W by (metis set_empty)
    have sp: "?sub_p \<noteq> []" using False by simp
    have mx: "np_max ?sub_p = Inr (Max ((!) Pxx ` ?W))"
      using np_max_Max[OF sp] img by simp
    obtain k where k: "np_argmax ?sub_p = Inr k" "k < length ?sub_p"
        "?sub_p ! k = Max (set ?sub_p)" "\<forall>j<k. ?sub_p ! j < Max (set ?sub_p)"
      using np_argmax_first[OF sp] by blast
    have klen: "k < length ?idx" using k(2) by simp
    have ef: "estimate_fundamental f Pxx lo hi =
               (if Max ((!) Pxx ` ?W) \<le> 0 then Inr None else Inr (Some (f ! (?idx ! k))))"
      using False tf tp mx k(1) klen by (simp add: estimate_fundamental_def Let_def)
    have kW: "?idx ! k \<in> ?W" using klen W nth_mem by blast
    have pk: "Pxx ! (?idx ! k) = Max ((!) Pxx ` ?W)"
      using k(3) klen img by simp
    have first: "Pxx ! j < Pxx ! (?idx ! k)" if "j \<in> ?W" "j < ?idx ! k" for j
    proof -
      have "j \<in> set ?idx" using that(1) W by simp
      then obtain j' where j': "j' < length ?idx" "?idx ! j' = j"
        unfolding in_set_conv_nth by blast
      have "j' < k"
      proof (rule ccontr)
        assume "\<not> j' < k"
        then have "k \<le> j'" by simp
        then have "?idx ! k \<le> ?idx ! j'"
          using np_where_sorted j'(1) by (simp add: sorted_iff_nth_mono)
        with that(2) j'(2) show False by simp
      qed
      then have "?sub_p ! j' < Max (set ?sub_p)" using k(4) by blast
      then show ?thesis using j' pk img by simp
    qed
    show ?thesis
    proof (cases "Max ((!) Pxx ` ?W) \<le> 0")
      case True
      then show ?thesis using ef by simp
    next
      case False
      then have "estimate_fundamental f Pxx lo hi = Inr (Some (f ! (?idx ! k)))"
        using ef by simp
      moreover have "0 < Pxx ! (?idx ! k)" using False pk by simp
      ultimately have res: "estimate_fundamental f Pxx lo hi = Inr (Some (f ! (?idx ! k)))"
        and pos: "0 < Pxx ! (?idx ! k)" by simp_all
      have iff: "(estimate_fundamental f Pxx lo hi = Inr None) =
                   (?W = {} \<or> Max ((!) Pxx ` ?W) \<le> 0)"
        using res ne False by simp
      have "\<forall>j\<in>?W. j < ?idx ! k \<longrightarrow> Pxx ! j < Pxx ! (?idx ! k)"
        using first by blast
      with res pk pos have
        "estimate_fundamental f Pxx lo hi = Inr (Some (f ! (?idx ! k)))
         \<and> Pxx ! (?idx ! k) = Max ((!) Pxx ` ?W)
         \<and> 0 < Pxx ! (?idx ! k)
         \<and> (\<forall>j\<in>?W. j < ?idx ! k \<longrightarrow> Pxx ! j < Pxx ! (?idx ! k))"
        by blast
      then have ex: "\<exists>n\<in>?W. estimate_fundamental f Pxx lo hi = Inr (Some (f ! n))
         \<and> Pxx ! n = Max ((!) Pxx ` ?W)
         \<and> 0 < Pxx ! n
         \<and> (\<forall>j\<in>?W. j < n \<longrightarrow> Pxx ! j < Pxx ! n)"
        using kW by (rule_tac x = "?idx ! k" in bexI)
      show ?thesis using iff ex by blast
    qed
  qed
qed

theorem estimate_fundamental_peak_or_absent_witness:
  "length [0, 120, 240, 500 :: real] = length [9, 3, 3, 1 :: real]
   \<and> estimate_fundamental [0, 120, 240, 500] [9, 3, 3, 1] 60 300 \<noteq> Inr None
   \<and> (\<exists>k. estimate_fundamental [0, 120, 240, 500] [9, 3, 3, 1] 60 300
             = Inr (Some ([0, 120, 240, 500] ! k)))"
proof -
  have h: "length [0, 120, 240, 500 :: real] = length [9, 3, 3, 1 :: real]" by simp
  have n: "estimate_fundamental [0, 120, 240, 500] [9, 3, 3, 1] 60 300 \<noteq> Inr None"
    by code_simp
  from estimate_fundamental_peak_or_absent[OF h, of 60 300] n h show ?thesis by blast
qed

subsection \<open>The sum of the band percentages\<close>










section \<open>Properties of the AudioLoader\<close>

lemma sum_list_divide_const:
  "sum_list (map (\<lambda>x. f x / c) xs) = sum_list (map f xs) / (c::real)"
  by (induction xs) (simp_all add: add_divide_distrib)

lemma sint16_abs: "\<bar>real_of_int (sint (w :: 16 word))\<bar> \<le> 32768"
proof -
  have "- 32768 \<le> sint w" "sint w < 32768"
    using sint_ge[of w] sint_lt[of w] by simp_all
  then have "\<bar>sint w\<bar> \<le> 32768" by simp
  then have "real_of_int \<bar>sint w\<bar> \<le> real_of_int 32768" by (simp only: of_int_le_iff)
  then show ?thesis by (simp only: of_int_abs of_int_numeral)
qed

lemma list_all2_map_same:
  "(\<And>x. P (f x) (g x)) \<Longrightarrow> list_all2 P (map f xs) (map g xs)"
  by (induction xs) auto

lemma sint16_sum_abs:
  "\<bar>sum_list (map (\<lambda>w. real_of_int (sint (w :: 16 word))) r)\<bar> \<le> 32768 * real (length r)"
proof (induction r)
  case Nil
  then show ?case by simp
next
  case (Cons w r)
  have "\<bar>real_of_int (sint w) + sum_list (map (\<lambda>w. real_of_int (sint w)) r)\<bar>
        \<le> \<bar>real_of_int (sint w)\<bar> + \<bar>sum_list (map (\<lambda>w. real_of_int (sint w)) r)\<bar>"
    by (rule abs_triangle_ineq)
  also have "\<dots> \<le> 32768 + 32768 * real (length r)"
    using sint16_abs[of w] Cons.IH by simp
  finally show ?case by (simp add: algebra_simps)
qed

lemma scaled_difference:
  fixes t :: real
  assumes "\<bar>t\<bar> \<le> 32768"
  shows "\<bar>t / 32767 - t / 32768\<bar> \<le> 1 / 32767"
proof -
  have "t / 32767 - t / 32768 = t / (32767 * 32768)" by simp
  then have "\<bar>t / 32767 - t / 32768\<bar> = \<bar>t\<bar> / (32767 * 32768)" by simp
  also have "\<dots> \<le> 32768 / (32767 * 32768)"
    using assms by (intro divide_right_mono) simp_all
  finally show ?thesis by simp
qed

lemma row_mean_difference:
  fixes r :: "16 word list"
  shows "\<bar>sum_list (map (\<lambda>w. real_of_int (sint w) / 32767) r) / real (length r)
          - sum_list (map (\<lambda>w. real_of_int (sint w) / 32768) r) / real (length r)\<bar>
         \<le> 1 / 32767"
proof -
  define t where "t = sum_list (map (\<lambda>w. real_of_int (sint w)) r) / real (length r)"
  have "\<bar>t\<bar> \<le> 32768"
  proof (cases "r = []")
    case True
    then show ?thesis by (simp add: t_def)
  next
    case False
    then have pos: "0 < real (length r)" by simp
    have "\<bar>t\<bar> = \<bar>sum_list (map (\<lambda>w. real_of_int (sint w)) r)\<bar> / real (length r)"
      by (simp add: t_def)
    also have "\<dots> \<le> 32768"
      using sint16_sum_abs[of r] pos by (simp add: pos_divide_le_eq)
    finally show ?thesis .
  qed
  then have "\<bar>t / 32767 - t / 32768\<bar> \<le> 1 / 32767" by (rule scaled_difference)
  then show ?thesis
    by (simp add: sum_list_divide_const t_def)
qed

lemma rms_difference_bound:
  assumes "list_all2 (\<lambda>x y. \<bar>x - y\<bar> \<le> d) a b" and "0 \<le> d"
  shows "rms_difference a b \<le> d"
proof -
  have sq: "sum_list (map (\<lambda>(x, y). (x - y)\<^sup>2) (zip a b)) \<le> real (length a) * d\<^sup>2"
    using assms(1)
  proof (induction rule: list_all2_induct)
    case Nil
    then show ?case by simp
  next
    case (Cons x xs y ys)
    have "\<bar>x - y\<bar> \<le> \<bar>d\<bar>" using Cons.hyps(1) assms(2) by simp
    then have "(x - y)\<^sup>2 \<le> d\<^sup>2" by (simp only: abs_le_square_iff)
    with Cons.IH show ?case by (simp add: algebra_simps)
  qed
  have "sum_list (map (\<lambda>(x, y). (x - y)\<^sup>2) (zip a b)) / real (length a) \<le> d\<^sup>2"
  proof (cases "a = []")
    case True
    then show ?thesis by simp
  next
    case False
    then have "0 < real (length a)" by simp
    then show ?thesis using sq by (simp add: pos_divide_le_eq mult.commute)
  qed
  then have "rms_difference a b \<le> sqrt (d\<^sup>2)"
    unfolding rms_difference_def by (rule real_sqrt_le_mono)
  then show ?thesis using assms(2) by simp
qed

lemma reshape_rows_map:
  "reshape_rows n (map g xs) =
     (case reshape_rows n xs of Inl e \<Rightarrow> Inl e | Inr rows \<Rightarrow> Inr (map (map g) rows))"
  by (simp add: reshape_rows_def take_map drop_map comp_def)

text \<open>
  C9. For every non-empty chunk of 16-bit PCM samples whose length is a multiple of the
  number of channels, the scientific-format reader path (samples divided by 32767) and the
  raw-PCM fallback path (samples divided by 32768) both return, with arrays of one length
  whose entries differ by at most 1/32767 each, so that their RMS difference is at most
  \<open>10\<^sup>-\<^sup>3\<close>.
\<close>

theorem pcm16_paths_agree:
  assumes "samples \<noteq> []" and "0 < n_channels" and "length samples mod n_channels = 0"
  shows "\<exists>a b. read_audio_scipy samples n_channels = Inr a
             \<and> read_audio_wave samples n_channels = Inr b
             \<and> length a = length samples div n_channels
             \<and> length b = length samples div n_channels
             \<and> a \<noteq> []
             \<and> list_all2 (\<lambda>x y. \<bar>x - y\<bar> \<le> 1 / 32767) a b
             \<and> rms_difference a b \<le> 1 / 1000"
proof -
  obtain rows where rows: "reshape_rows n_channels samples = Inr rows"
    and len: "length rows = length samples div n_channels"
    using assms(2,3) by (simp add: reshape_rows_def)
  define a where "a = (if n_channels > 1
      then mean_axis1 (map (map (\<lambda>w. real_of_int (sint w) / 32767)) rows)
      else map (\<lambda>w. real_of_int (sint w) / 32767) samples)"
  define b where "b = (if n_channels > 1
      then mean_axis1 (map (map (\<lambda>w. real_of_int (sint w) / 32768)) rows)
      else map (\<lambda>w. real_of_int (sint w) / 32768) samples)"
  have ra: "read_audio_scipy samples n_channels = Inr a"
    by (simp add: read_audio_scipy_def reshape_rows_map rows a_def)
  have rb: "read_audio_wave samples n_channels = Inr b"
    by (simp add: read_audio_wave_def reshape_rows_map rows b_def)
  have one: "n_channels = 1" if "\<not> n_channels > 1" using that assms(2) by simp
  have la: "length a = length samples div n_channels"
    using len one by (auto simp: a_def mean_axis1_def)
  have lb: "length b = length samples div n_channels"
    using len one by (auto simp: b_def mean_axis1_def)
  have "n_channels \<le> length samples"
    using assms by (metis length_greater_0_conv mod_less neq0_conv not_le)
  then have "0 < length samples div n_channels"
    using assms(2) by (simp add: div_greater_zero_iff)
  then have ne: "a \<noteq> []" using la by auto
  have close: "list_all2 (\<lambda>x y. \<bar>x - y\<bar> \<le> 1 / 32767) a b"
  proof (cases "n_channels > 1")
    case True
    have a: "a = map (\<lambda>r. sum_list (map (\<lambda>w. real_of_int (sint w) / 32767) r) / real (length r)) rows"
      using True by (simp add: a_def mean_axis1_def comp_def)
    have b: "b = map (\<lambda>r. sum_list (map (\<lambda>w. real_of_int (sint w) / 32768) r) / real (length r)) rows"
      using True by (simp add: b_def mean_axis1_def comp_def)
    show ?thesis
      unfolding a b by (rule list_all2_map_same) (rule row_mean_difference)
  next
    case False
    have a: "a = map (\<lambda>w. real_of_int (sint w) / 32767) samples"
      using False by (simp add: a_def)
    have b: "b = map (\<lambda>w. real_of_int (sint w) / 32768) samples"
      using False by (simp add: b_def)
    show ?thesis
      unfolding a b by (rule list_all2_map_same) (rule scaled_difference, rule sint16_abs)
  qed
  have "rms_difference a b \<le> 1 / 32767"
    by (rule rms_difference_bound[OF close]) simp
  then have "rms_difference a b \<le> 1 / 1000" by simp
  with ra rb la lb ne close show ?thesis by blast
qed

theorem pcm16_paths_agree_witness:
  "[32767, - 32768, 0, 100 :: 16 word] \<noteq> [] \<and> (0::nat) < 2
   \<and> length [32767, - 32768, 0, 100 :: 16 word] mod 2 = 0
   \<and> (\<exists>a b. read_audio_scipy [32767, - 32768, 0, 100] 2 = Inr a
          \<and> read_audio_wave [32767, - 32768, 0, 100] 2 = Inr b
          \<and> length a = 2 \<and> length b = 2
          \<and> rms_difference a b \<le> 1 / 1000)"
proof -
  have h1: "[32767, - 32768, 0, 100 :: 16 word] \<noteq> []" by simp
  have h2: "(0::nat) < 2" by simp
  have h3: "length [32767, - 32768, 0, 100 :: 16 word] mod 2 = 0" by simp
  from pcm16_paths_agree[OF h1 h2 h3] h1 h2 h3 show ?thesis by auto
qed

section \<open>Properties of the SpectrumEstimator\<close>

subsection \<open>The loop, the window and the transform\<close>

lemma next_pow2_result:
  "0 < p \<Longrightarrow> \<exists>j. next_pow2 p n = Some (p * 2 ^ j) \<and> n \<le> p * 2 ^ j \<and> (0 < j \<longrightarrow> p * 2 ^ (j - 1) < n)"
proof (induction "n - p" arbitrary: p rule: less_induct)
  case less
  show ?case
  proof (cases "p < n")
    case False
    then have "next_pow2 p n = Some (p * 2 ^ 0)" "n \<le> p * 2 ^ 0"
      by (simp_all add: next_pow2.simps)
    then show ?thesis
      by blast
  next
    case True
    with less.prems have "n - 2 * p < n - p" "0 < 2 * p"
      by simp_all
    from less.hyps[OF this] obtain j where
      j: "next_pow2 (2 * p) n = Some (2 * p * 2 ^ j)" "n \<le> 2 * p * 2 ^ j"
         "0 < j \<longrightarrow> 2 * p * 2 ^ (j - 1) < n"
      by blast
    have r: "next_pow2 p n = Some (p * 2 ^ Suc j)"
      using True j(1) by (subst next_pow2.simps) simp
    have b: "n \<le> p * 2 ^ Suc j"
      using j(2) by simp
    have "p * 2 ^ (Suc j - 1) < n"
    proof (cases j)
      case 0
      then show ?thesis using True by simp
    next
      case (Suc k)
      then show ?thesis using j(3) by simp
    qed
    with r b show ?thesis
      by blast
  qed
qed

lemma next_pow2_one:
  assumes "1 \<le> n"
  shows "\<exists>k. next_pow2 1 n = Some (2 ^ k) \<and> n \<le> 2 ^ k \<and> 2 ^ k < 2 * n"
proof -
  from next_pow2_result[of 1 n] obtain j where
    j: "next_pow2 1 n = Some (2 ^ j)" "n \<le> 2 ^ j" "0 < j \<longrightarrow> 2 ^ (j - 1) < n"
    by auto
  have "(2::nat) ^ j < 2 * n"
  proof (cases j)
    case 0
    then show ?thesis using assms by simp
  next
    case (Suc k)
    then show ?thesis using j(3) by simp
  qed
  with j show ?thesis
    by blast
qed

lemma next_pow2_zero: "next_pow2 1 0 = Some 1"
  by (simp add: next_pow2.simps)

lemma np_hanning_length: "length (np_hanning n) = n"
  by (simp add: np_hanning_def)

lemma np_hanning_hann: "np_hanning n = hann_window n"
proof -
  consider "n = 0" | "n = 1" | "2 \<le> n"
    by linarith
  then show ?thesis
  proof cases
    case 1
    then show ?thesis by (simp add: np_hanning_def hann_window_def)
  next
    case 2
    then show ?thesis by (simp add: np_hanning_def hann_window_def)
  next
    case 3
    have "1 / 2 + 1 / 2 * cos (pi * (1 - real n + 2 * real k) / (real n - 1))
        = 1 / 2 - 1 / 2 * cos (2 * pi * real k / (real n - 1))" for k
    proof -
      have "pi * (1 - real n + 2 * real k) / (real n - 1)
          = 2 * pi * real k / (real n - 1) - pi"
        using 3 by (simp add: field_simps)
      then show ?thesis
        by simp
    qed
    then show ?thesis
      using 3 by (simp add: np_hanning_def hann_window_def)
  qed
qed

lemma compute_psd_unavailable:
  "compute_psd welch_unavailable y sr = psd_fallback (map (\<lambda>v. v - np_mean y) y) sr"
  by (simp add: compute_psd_def welch_unavailable_def Let_def)

lemma np_rfft_padded:
  assumes "length v \<le> N" and "0 < N"
  shows "np_rfft v N =
    Inr (map (\<lambda>b. \<Sum>j<length v. of_real (v ! j) * cis (- 2 * pi * real j * real b / real N))
             [0..<N div 2 + 1])"
proof -
  define z where "z = v @ replicate (N - length v) 0"
  have t: "take N v = v"
    using assms by simp
  have "(\<Sum>j\<leftarrow>[0..<N]. of_real (z ! j) * cis (- 2 * pi * real j * real b / real N))
      = (\<Sum>j<length v. of_real (v ! j) * cis (- 2 * pi * real j * real b / real N))" for b
  proof -
    let ?g = "\<lambda>j. complex_of_real (z ! j) * cis (- 2 * pi * real j * real b / real N)"
    have "(\<Sum>j\<leftarrow>[0..<N]. ?g j) = sum ?g {0..<N}"
      by (simp add: interv_sum_list_conv_sum_set_nat)
    also have "\<dots> = sum ?g {..<length v}"
    proof (rule sum.mono_neutral_right)
      show "finite {0..<N}" by simp
      show "{..<length v} \<subseteq> {0..<N}" using assms by auto
      show "\<forall>i\<in>{0..<N} - {..<length v}. ?g i = 0"
      proof
        fix i
        assume "i \<in> {0..<N} - {..<length v}"
        then have "length v \<le> i" "i - length v < N - length v"
          by auto
        then have "z ! i = 0"
          by (simp add: z_def nth_append)
        then show "?g i = 0"
          by simp
      qed
    qed
    also have "\<dots> = (\<Sum>j<length v. of_real (v ! j) * cis (- 2 * pi * real j * real b / real N))"
      by (rule sum.cong) (simp_all add: z_def nth_append)
    finally show ?thesis .
  qed
  then show ?thesis
    using assms(2) unfolding np_rfft_def Let_def t z_def[symmetric] by simp
qed

lemma psd_fallback_spec:
  assumes "next_pow2 1 (length x) = Some N" and "length x \<le> N" and "0 < N" and "0 < sr"
  shows "psd_fallback x sr = Some (Inr (spec_fallback_psd x sr N))"
proof -
  define v where "v = map2 (*) x (np_hanning (length x))"
  have lv: "length v = length x"
    by (simp add: v_def np_hanning_length)
  have nth: "v ! j = x ! j * hann_window (length x) ! j" if "j < length x" for j
    using that by (simp add: v_def np_hanning_length np_hanning_hann[symmetric])
  have Y: "np_rfft v N =
    Inr (map (\<lambda>b. \<Sum>j<length x. of_real (x ! j * hann_window (length x) ! j) *
                                   cis (- 2 * pi * real j * real b / real N))
             [0..<N div 2 + 1])"
    unfolding np_rfft_padded[of v N, unfolded lv, OF assms(2,3)]
    by (simp add: nth)
  have f: "np_rfftfreq N (1 / real sr) = map (\<lambda>b. real b * real sr / real N) [0..<N div 2 + 1]"
    by (simp add: np_rfftfreq_def)
  have t: "take (length x) x = x"
    by simp
  show ?thesis
    unfolding psd_fallback_def Let_def assms(1) option.case t v_def[symmetric] Y sum.case f
    using assms(4)
    by (simp add: spec_fallback_psd_def Let_def np_hanning_hann o_def)
qed

subsection \<open>The fallback path\<close>

text \<open>
  C7. On the fallback path (the primary estimator unavailable), for every signal of length
  \<open>n \<ge> 1\<close> and every positive sample rate, \<^verbatim>\<open>compute_psd\<close> returns, and what it returns is
  the one-sided spectrum of the mean-removed signal, multiplied by a Hann window of length
  \<open>n\<close> and padded with zeros to the smallest power of two \<open>2\<^sup>k \<ge> n\<close> (the power of two
  with \<open>n \<le> 2\<^sup>k < 2 n\<close>): the power of a bin is the squared magnitude of the transform
  divided by the sum of the squared window values times the sample rate.
\<close>

theorem fallback_psd_is_windowed_fft:
  assumes "1 \<le> length y" and "0 < sr"
  shows "\<exists>k. length y \<le> 2 ^ k \<and> 2 ^ k < 2 * length y \<and>
             compute_psd welch_unavailable y sr =
               Some (Inr (spec_fallback_psd (map (\<lambda>v. v - np_mean y) y) sr (2 ^ k)))"
proof -
  let ?x = "map (\<lambda>v. v - np_mean y) y"
  from next_pow2_one[OF assms(1)] obtain k where
    k: "next_pow2 1 (length y) = Some (2 ^ k)" "length y \<le> 2 ^ k" "2 ^ k < 2 * length y"
    by blast
  have "psd_fallback ?x sr = Some (Inr (spec_fallback_psd ?x sr (2 ^ k)))"
    by (rule psd_fallback_spec) (use k assms in simp_all)
  with k show ?thesis
    unfolding compute_psd_unavailable by blast
qed

lemma pow2_between_3_6:
  assumes "(3::nat) \<le> 2 ^ k" and "(2::nat) ^ k < 6"
  shows "k = 2"
proof -
  have "\<not> k \<le> 1"
  proof
    assume "k \<le> 1"
    then have "(2::nat) ^ k \<le> 2 ^ 1"
      by (rule power_increasing) simp
    with assms(1) show False by simp
  qed
  moreover have "\<not> 3 \<le> k"
  proof
    assume "3 \<le> k"
    then have "(2::nat) ^ 3 \<le> 2 ^ k"
      by (rule power_increasing) simp
    with assms(2) show False by simp
  qed
  ultimately show ?thesis by simp
qed

lemma hann_window_3: "hann_window 3 = [0, 1, 0]"
proof -
  have "[0..<3] = [0, Suc 0, Suc (Suc 0)]"
    by (simp add: numeral_3_eq_3 upt_rec)
  then show ?thesis
    by (simp add: hann_window_def)
qed

lemma spec_fallback_psd_example:
  "spec_fallback_psd [- 1, 2, - 1] 2 4 = ([0, 1 / 2, 1], [Finite 2, Finite 2, Finite 2])"
proof -
  have u: "[0..<3] = [0, Suc 0, Suc (Suc 0)]"
    by (simp add: numeral_3_eq_3 upt_rec)
  have c: "(cmod (2 * cis t))\<^sup>2 = 4" for t
    by (simp add: norm_mult)
  have l: "length [- 1, 2, - 1 :: real] = 3"
    by simp
  have d: "[0..<4 div 2 + 1] = [0, Suc 0, Suc (Suc 0)]"
    using u by simp
  have s: "{..<3::nat} = {0, Suc 0, Suc (Suc 0)}"
    by auto
  show ?thesis
    unfolding spec_fallback_psd_def Let_def l hann_window_3 d s
    by (simp add: np_divide_def c)
qed

text \<open>
  The signal \<open>[0, 3, 0]\<close> at 2 Hz: the mean is 1, the window is \<open>[0, 1, 0]\<close>, the padded length
  is 4, and each of the three bins has squared magnitude 4 and power \<open>4 / (1 \<times> 2)\<close>.
\<close>

theorem fallback_psd_is_windowed_fft_witness:
  "compute_psd welch_unavailable [0, 3, 0] 2 =
     Some (Inr ([0, 1 / 2, 1], [Finite 2, Finite 2, Finite 2]))"
proof -
  have m: "map (\<lambda>v. v - np_mean [0, 3, 0]) [0, 3, 0] = [- 1, 2, - 1]"
    by (simp add: np_mean_def)
  have p: "1 \<le> length [0, 3, 0 :: real]" "0 < (2::nat)"
    by simp_all
  from fallback_psd_is_windowed_fft[OF p] obtain k where
    k: "length [0, 3, 0 :: real] \<le> 2 ^ k" "2 ^ k < 2 * length [0, 3, 0 :: real]"
       "compute_psd welch_unavailable [0, 3, 0] 2 =
          Some (Inr (spec_fallback_psd (map (\<lambda>v. v - np_mean [0, 3, 0]) [0, 3, 0]) 2 (2 ^ k)))"
    by blast
  have "k = 2"
    using k(1,2) by (intro pow2_between_3_6) simp_all
  then have "(2::nat) ^ k = 4"
    by simp
  then show ?thesis
    unfolding k(3) m by (simp only: spec_fallback_psd_example)
qed

subsection \<open>The primary path\<close>



subsection \<open>The empty signal\<close>

lemma psd_fallback_empty:
  "0 < sr \<Longrightarrow> psd_fallback [] sr = Some (Inr ([0], [NaN]))"
  unfolding psd_fallback_def Let_def list.size next_pow2_zero option.case
  by (simp add: np_hanning_def np_rfft_def np_rfftfreq_def np_divide_def Let_def)

text \<open>
  C5. A zero-length sample sequence is not rejected: \<^verbatim>\<open>main\<close> has no check of the length
  and the program has no EmptySignal error. For an empty decoded sequence and a positive
  sample rate, \<^verbatim>\<open>main\<close> computes the duration 0 and calls \<^verbatim>\<open>compute_psd\<close>, which calls the
  primary estimator on the empty array with segment length 256 and returns its result, or,
  when the primary estimator is unavailable or raises, the spectrum of one bin at frequency
  0 whose power is not a number. No error is reported.
\<close>

theorem empty_signal_reaches_psd:
  assumes "0 < sr"
  shows "main_psd welch [] sr =
     Some (Inr (0, case welch \<lparr>w_x = [], w_fs = sr, w_window = ''hann'', w_nperseg = 256,
                                 w_noverlap = 128, w_detrend = ''constant'',
                                 w_scaling = ''spectrum''\<rparr> of
                     Inr r \<Rightarrow> r
                   | Inl e \<Rightarrow> ([0], [NaN])))"
  using assms
  by (simp add: main_psd_def compute_psd_def Let_def psd_fallback_empty split: sum.split)

theorem empty_signal_reaches_psd_witness:
  "main_psd welch_unavailable [] 8000 = Some (Inr (0, [0], [NaN]))"
  using empty_signal_reaches_psd[of 8000 welch_unavailable]
  by (simp add: welch_unavailable_def)

text \<open>
  The empty sequence at 44100 Hz without the primary estimator: the spectrum estimator is
  reached and returns, where the claim has an EmptySignal error.
\<close>

theorem empty_signal_reaches_psd_counterexample:
  "main_psd welch_unavailable [] 44100 = Some (Inr (0, [0], [NaN]))"
  by (simp add: main_psd_def compute_psd_unavailable psd_fallback_empty)

subsection \<open>The invariants of the spectrum\<close>

lemma np_hanning_2: "np_hanning 2 = [0, 0]"
proof -
  have "[0..<2] = [0, Suc 0]"
    by (simp add: numeral_2_eq_2 upt_rec)
  then show ?thesis
    by (simp add: np_hanning_def)
qed

lemma next_pow2_1_2: "next_pow2 1 2 = Some 2"
  by (simp add: next_pow2.simps)

lemma np_rfft_zero_2: "np_rfft [0, 0] 2 = Inr [0, 0]"
proof -
  have "[0..<2] = [0, Suc 0]"
    by (simp add: numeral_2_eq_2 upt_rec)
  then show ?thesis
    by (simp add: np_rfft_def Let_def)
qed

lemma np_rfftfreq_2: "0 < sr \<Longrightarrow> np_rfftfreq 2 (1 / real sr) = [0, real sr / 2]"
proof -
  have "[0..<2] = [0, Suc 0]"
    by (simp add: numeral_2_eq_2 upt_rec)
  then show ?thesis
    by (simp add: np_rfftfreq_def Let_def)
qed

lemma psd_fallback_two:
  assumes "0 < sr"
  shows "psd_fallback [a, b] sr = Some (Inr ([0, real sr / 2], [NaN, NaN]))"
proof -
  have l: "length [a, b] = 2"
    by simp
  have p: "map2 (*) (take 2 [a, b]) [0, 0] = [0, 0]"
    by simp
  show ?thesis
    unfolding psd_fallback_def Let_def l next_pow2_1_2 option.case np_hanning_2 p
      np_rfft_zero_2 sum.case np_rfftfreq_2[OF assms]
    using assms by (simp add: np_divide_def)
qed

text \<open>
  C6. The claim is that every power value is non-negative, on both paths. On the fallback
  path a signal of two samples has a power that is not a number: \<^verbatim>\<open>np.hanning(2)\<close> is
  \<open>[0, 0]\<close>, so that the transform and the sum of the squared window values are both 0, and
  the quotient is \<^verbatim>\<open>0/0\<close>. The samples \<open>[1, 2]\<close> at 44100 Hz give the frequencies
  \<open>[0, 22050]\<close> and the power \<open>[NaN, NaN]\<close>.
\<close>

theorem two_sample_spectrum_not_a_number:
  "compute_psd welch_unavailable [1, 2] 44100 = Some (Inr ([0, 22050], [NaN, NaN]))"
  unfolding compute_psd_unavailable
  by (simp add: psd_fallback_two)

text \<open>
  The other invariants hold on the fallback path, and the power is non-negative for every
  other length: the first frequency is 0, no frequency exceeds half the sample rate, and
  for a signal of one sample or of at least three the window has a positive energy.
\<close>

lemma fallback_frequencies:
  assumes "psd_fallback x sr = Some (Inr (f, P))"
  shows "f ! 0 = 0 \<and> (\<forall>v\<in>set f. 0 \<le> v \<and> v \<le> real sr / 2) \<and> length P = length f"
proof -
  from next_pow2_result[of 1 "length x"] obtain j where
    j: "next_pow2 1 (length x) = Some (2 ^ j)"
    by auto
  define N :: nat where "N = 2 ^ j"
  have N: "0 < N"
    by (simp add: N_def)
  from assms have sr: "0 < sr" and
    f: "f = np_rfftfreq N (1 / real sr)" and "length P = N div 2 + 1"
    unfolding psd_fallback_def Let_def j N_def[symmetric] option.case
    by (auto simp: np_rfft_def Let_def N split: sum.splits if_splits)
  have f': "f = map (\<lambda>b. real b * real sr / real N) [0..<N div 2 + 1]"
    unfolding f by (simp add: np_rfftfreq_def)
  have "real b * real sr / real N \<le> real sr / 2" if "b \<le> N div 2" for b
  proof -
    from that have "2 * b \<le> N"
      by simp
    then have "2 * real b \<le> real N"
      by (metis of_nat_le_iff of_nat_mult of_nat_numeral)
    then have "real b / real N \<le> 1 / 2"
      using N by (simp add: field_simps)
    then have "real sr * (real b / real N) \<le> real sr * (1 / 2)"
      by (rule mult_left_mono) simp
    then show ?thesis
      by (simp add: mult.commute)
  qed
  then have "\<forall>v\<in>set f. 0 \<le> v \<and> v \<le> real sr / 2"
    unfolding f' by auto
  moreover have "f ! 0 = 0"
    unfolding f' by (simp del: upt_Suc)
  moreover have "length P = length f"
    using \<open>length P = N div 2 + 1\<close> unfolding f' by simp
  ultimately show ?thesis
    by blast
qed

lemma member_le_sum_list:
  fixes ws :: "real list"
  shows "\<forall>v\<in>set ws. 0 \<le> v \<Longrightarrow> u \<in> set ws \<Longrightarrow> u \<le> sum_list ws"
proof (induction ws)
  case Nil
  then show ?case by simp
next
  case (Cons w ws)
  have "0 \<le> sum_list ws"
    using Cons.prems(1) by (intro sum_list_nonneg) simp
  then show ?case
    using Cons by auto
qed

lemma hann_window_energy:
  assumes "1 \<le> n" and "n \<noteq> 2"
  shows "0 < sum_list (map (\<lambda>v. v\<^sup>2) (hann_window n))"
proof (cases "n = 1")
  case True
  then show ?thesis
    by (simp add: hann_window_def)
next
  case False
  with assms have n: "3 \<le> n"
    by simp
  define t where "t = 2 * pi * real 1 / (real n - 1)"
  have "0 < t"
    using n by (simp add: t_def)
  moreover have "t \<le> pi"
  proof -
    have "2 \<le> real n - 1"
      using n by simp
    then have "2 * pi / (real n - 1) \<le> 2 * pi / 2"
      by (intro divide_left_mono) simp_all
    then show ?thesis
      by (simp add: t_def)
  qed
  ultimately have "cos t < cos 0"
    by (intro cos_monotone_0_pi) simp_all
  then have pos: "0 < 1 / 2 - 1 / 2 * cos t"
    by simp
  have "hann_window n ! 1 = 1 / 2 - 1 / 2 * cos t"
    using n by (simp add: hann_window_def t_def)
  moreover have "hann_window n ! 1 \<in> set (hann_window n)"
    using n by (intro nth_mem) (simp add: hann_window_def)
  ultimately have "(1 / 2 - 1 / 2 * cos t)\<^sup>2 \<in> set (map (\<lambda>v. v\<^sup>2) (hann_window n))"
    by (metis image_eqI set_map)
  then have "(1 / 2 - 1 / 2 * cos t)\<^sup>2 \<le> sum_list (map (\<lambda>v. v\<^sup>2) (hann_window n))"
    by (intro member_le_sum_list) auto
  moreover have "0 < (1 / 2 - 1 / 2 * cos t)\<^sup>2"
    using pos by simp
  ultimately show ?thesis
    by linarith
qed

lemma fallback_power_nonneg:
  assumes "1 \<le> length x" and "length x \<noteq> 2" and "psd_fallback x sr = Some (Inr (f, P))"
  shows "\<forall>p\<in>set P. \<exists>v. p = Finite v \<and> 0 \<le> v"
proof -
  from next_pow2_one[OF assms(1)] obtain k where
    k: "next_pow2 1 (length x) = Some (2 ^ k)" "length x \<le> 2 ^ k"
    by blast
  have sr: "0 < sr"
    using assms(3) unfolding psd_fallback_def Let_def k(1) option.case
    by (auto split: sum.splits if_splits)
  have "psd_fallback x sr = Some (Inr (spec_fallback_psd x sr (2 ^ k)))"
    by (rule psd_fallback_spec) (use k sr in simp_all)
  with assms(3) have P: "P = snd (spec_fallback_psd x sr (2 ^ k))"
    by simp
  define D where "D = sum_list (map (\<lambda>v. v\<^sup>2) (hann_window (length x))) * real sr"
  have D: "0 < D"
    using hann_window_energy[OF assms(1,2)] sr by (simp add: D_def)
  have "np_divide (a\<^sup>2) D = Finite (a\<^sup>2 / D) \<and> 0 \<le> a\<^sup>2 / D" for a :: real
    using D by (simp add: np_divide_def)
  then show ?thesis
    unfolding P spec_fallback_psd_def Let_def D_def[symmetric] by auto
qed

end
